theory Spec2Isabelle
  imports Complex_Main "HOL-Library.Word"
begin

section \<open>The heart-beat landmark pipeline of \<open>pig_dataprocess_auto.py\<close>\<close>

text \<open>
  The script processes each image in one pass of its main loop. The stages that come from
  OpenCV, SciPy and the operator (loading, resizing, cropping, grey-scale conversion,
  \<open>find_peaks\<close>, the two \<open>input\<close> prompts) are inputs of the model; the stages written in
  the script itself are embedded below, in the order of the source:
  the segmentation by midpoints (lines 76-83), the search for the top-most bright pixel of
  each segment (lines 86-104), the manual y-scale (lines 107-110) and the control flow of the
  loop (lines 26-31, 71-73).

  Column indices and peak positions are NumPy \<open>int64\<close> values far below the overflow range
  (they index the columns of an image), so they are modelled as \<open>int\<close>; \<open>//\<close> is floor
  division, which is \<open>div\<close> on \<open>int\<close>. Pixels of the grey-scale image are \<open>uint8\<close>, modelled
  as \<open>8 word\<close>. The Python floats of the y-scale are modelled as exact reals; rounding is
  outside the model.
\<close>

subsection \<open>Configuration constants\<close>

definition BRIGHTNESS_THRESHOLD :: nat where
  "BRIGHTNESS_THRESHOLD = 5"

definition intensity_threshold :: nat where
  "intensity_threshold = 0"

subsection \<open>The grey-scale image\<close>

text \<open>
  A two-dimensional NumPy array: its shape and its rows. \<open>gray.shape\<close> keeps the width also
  when there is no row, so the shape is stored beside the rows.
\<close>

record gray_image =
  img_height :: nat
  img_width :: nat
  pixels :: "8 word list list"

definition rectangular :: "gray_image \<Rightarrow> bool" where
  "rectangular g \<longleftrightarrow>
     length (pixels g) = img_height g \<and> (\<forall>row \<in> set (pixels g). length row = img_width g)"

text \<open>\<open>gray[r, c]\<close> for indices inside the shape.\<close>

definition pixel :: "gray_image \<Rightarrow> nat \<Rightarrow> nat \<Rightarrow> 8 word" where
  "pixel g r c = pixels g ! r ! c"

text \<open>Line 56: \<open>gray[gray < BRIGHTNESS_THRESHOLD] = 0\<close>.\<close>

definition brightness_floor :: "gray_image \<Rightarrow> gray_image" where
  "brightness_floor g =
     g\<lparr>pixels := map (map (\<lambda>v. if unat v < BRIGHTNESS_THRESHOLD then 0 else v)) (pixels g)\<rparr>"

subsection \<open>Segmentation by midpoints (lines 76-83)\<close>

text \<open>
  \<open>peaks[-1]\<close> and \<open>peaks[-2]\<close> are the last and the last but one element; the code reaches
  these lines only with \<open>len(peaks) \<ge> 2\<close>.
\<close>

definition left_bound :: "int list \<Rightarrow> int" where
  "left_bound peaks = max 0 (peaks ! 0 - (peaks ! 1 - peaks ! 0) div 2)"

definition midpoint :: "int list \<Rightarrow> nat \<Rightarrow> int" where
  "midpoint peaks i = (peaks ! i + peaks ! (i + 1)) div 2"

definition right_bound :: "int list \<Rightarrow> int \<Rightarrow> int" where
  "right_bound peaks width =
     min width (peaks ! (length peaks - 1)
                + (peaks ! (length peaks - 1) - peaks ! (length peaks - 2)) div 2)"

definition region_boundaries :: "int list \<Rightarrow> int \<Rightarrow> int list" where
  "region_boundaries peaks width =
     [left_bound peaks] @ map (midpoint peaks) [0..<length peaks - 1] @ [right_bound peaks width]"

text \<open>
  The regions the later loops walk through: \<open>for i in range(len(region_boundaries) - 1)\<close>
  with \<open>x0 = region_boundaries[i]\<close> and \<open>x1 = region_boundaries[i + 1]\<close>.
\<close>

definition regions :: "int list \<Rightarrow> (int \<times> int) list" where
  "regions bs = map (\<lambda>i. (bs ! i, bs ! (i + 1))) [0..<length bs - 1]"

text \<open>
  The peak sequences the segmentation is meant for: at least two peaks, strictly increasing,
  all of them columns of the image.
\<close>

definition valid_peaks :: "int list \<Rightarrow> int \<Rightarrow> bool" where
  "valid_peaks peaks width \<longleftrightarrow>
     2 \<le> length peaks \<and> sorted_wrt (<) peaks \<and> (\<forall>p \<in> set peaks. 0 \<le> p \<and> p < width)"

subsection \<open>Top-most bright pixel in each segment (lines 86-104)\<close>

text \<open>
  A slice bound of Python for a dimension of length \<open>n\<close>: a negative bound counts from the
  end, and every bound is clamped into \<open>[0, n]\<close>.
\<close>

definition slice_bound :: "int \<Rightarrow> nat \<Rightarrow> nat" where
  "slice_bound i n = (if i < 0 then nat (max (i + int n) 0) else nat (min i (int n)))"

text \<open>\<open>gray[:, x0:x1]\<close>; an empty slice when the start is not below the stop.\<close>

definition subregion :: "gray_image \<Rightarrow> int \<Rightarrow> int \<Rightarrow> gray_image" where
  "subregion g x0 x1 =
     (let a = slice_bound x0 (img_width g); b = slice_bound x1 (img_width g)
      in \<lparr>img_height = img_height g, img_width = b - a,
          pixels = map (\<lambda>row. take (b - a) (drop a row)) (pixels g)\<rparr>)"

text \<open>\<open>subregion[:, x_local]\<close>.\<close>

definition column :: "gray_image \<Rightarrow> nat \<Rightarrow> 8 word list" where
  "column g c = map (\<lambda>row. row ! c) (pixels g)"

text \<open>\<open>np.where(col > intensity_threshold)[0]\<close>: the rows of the bright pixels, ascending.\<close>

definition valid_y :: "8 word list \<Rightarrow> nat list" where
  "valid_y col = filter (\<lambda>r. intensity_threshold < unat (col ! r)) [0..<length col]"

text \<open>\<open>np.min\<close> of a non-empty array.\<close>

fun np_min :: "nat \<Rightarrow> nat list \<Rightarrow> nat" where
  "np_min y [] = y"
| "np_min y (z # zs) = np_min (min y z) zs"

text \<open>
  One pass of the inner loop: the state is \<open>(min_y, min_x_local)\<close>, and a column replaces
  it only when its top-most bright row is strictly above the best so far.
\<close>

definition column_step :: "gray_image \<Rightarrow> int \<times> int \<Rightarrow> nat \<Rightarrow> int \<times> int" where
  "column_step sub st x_local =
     (case valid_y (column sub x_local) of
        [] \<Rightarrow> st
      | y # ys \<Rightarrow> if int (np_min y ys) < fst st then (int (np_min y ys), int x_local) else st)"

fun column_scan :: "gray_image \<Rightarrow> nat list \<Rightarrow> int \<times> int \<Rightarrow> int \<times> int" where
  "column_scan sub [] st = st"
| "column_scan sub (x_local # xs) st = column_scan sub xs (column_step sub st x_local)"

text \<open>
  The body of the outer loop for one segment: \<open>None\<close> when nothing is appended to
  \<open>highest_peaks\<close>, otherwise the pair \<open>(x_global, min_y)\<close>.
\<close>

definition segment_peak :: "gray_image \<Rightarrow> int \<Rightarrow> int \<Rightarrow> (int \<times> int) option" where
  "segment_peak g x0 x1 =
     (let sub = subregion g x0 x1;
          (min_y, min_x_local) = column_scan sub [0..<img_width sub] (int (img_height g), - 1)
      in if min_x_local \<ge> 0 \<and> min_y < int (img_height g)
         then Some (x0 + min_x_local, min_y) else None)"

fun collect_peaks :: "gray_image \<Rightarrow> (int \<times> int) list \<Rightarrow> (int \<times> int) list" where
  "collect_peaks g [] = []"
| "collect_peaks g ((x0, x1) # rs) =
     (case segment_peak g x0 x1 of
        None \<Rightarrow> collect_peaks g rs
      | Some p \<Rightarrow> p # collect_peaks g rs)"

definition highest_peaks :: "gray_image \<Rightarrow> int list \<Rightarrow> (int \<times> int) list" where
  "highest_peaks g bs = collect_peaks g (regions bs)"

subsection \<open>Manual y-scale (lines 107-110)\<close>

definition raw_y_coords :: "(int \<times> int) list \<Rightarrow> int list" where
  "raw_y_coords hp = map snd hp"

definition scale_row :: "nat \<Rightarrow> real \<Rightarrow> real \<Rightarrow> int \<Rightarrow> real" where
  "scale_row height y_bottom y_top r =
     (1 - real_of_int r / real height) * (y_top - y_bottom) + y_bottom"

definition converted_y :: "int list \<Rightarrow> nat \<Rightarrow> real \<Rightarrow> real \<Rightarrow> real list" where
  "converted_y rows height y_bottom y_top = map (scale_row height y_bottom y_top) rows"

subsection \<open>The main loop (lines 26-145)\<close>

text \<open>
  What the loop body is given for one image: the result of \<open>cv2.imread\<close> followed by the
  resizing, cropping and grey-scale conversion (\<open>None\<close> when the image did not load), the
  peaks \<open>find_peaks\<close> returns for its profile, and the operator's two scale values.
\<close>

record image_input =
  base_name :: string
  gray_in :: "gray_image option"
  peaks_in :: "int list"
  y_bottom_in :: real
  y_top_in :: real

text \<open>The two \<open>continue\<close> statements of the loop body.\<close>

datatype skip = CouldNotLoad | TooFewPeaks

text \<open>What the loop body saves for an image it completes.\<close>

record image_output =
  out_boundaries :: "int list"
  out_peaks :: "(int \<times> int) list"
  out_raw_y :: "int list"
  out_converted_y :: "real list"

definition process_image :: "image_input \<Rightarrow> skip + image_output" where
  "process_image inp =
     (case gray_in inp of
        None \<Rightarrow> Inl CouldNotLoad
      | Some g0 \<Rightarrow>
          let gray = brightness_floor g0 in
          if length (peaks_in inp) < 2 then Inl TooFewPeaks
          else
            let bs = region_boundaries (peaks_in inp) (int (img_width gray));
                hp = highest_peaks gray bs;
                ys = raw_y_coords hp
            in Inr \<lparr>out_boundaries = bs, out_peaks = hp, out_raw_y = ys,
                    out_converted_y =
                      converted_y ys (img_height gray) (y_bottom_in inp) (y_top_in inp)\<rparr>)"

text \<open>The loop over \<open>image_files\<close>: the outcomes in the order of the images.\<close>

fun process_all :: "image_input list \<Rightarrow> (string \<times> (skip + image_output)) list" where
  "process_all [] = []"
| "process_all (inp # rest) = (base_name inp, process_image inp) # process_all rest"

subsection \<open>Notions the properties are stated with\<close>

text \<open>A column lies in a half-open region.\<close>

definition in_region :: "int \<times> int \<Rightarrow> int \<Rightarrow> bool" where
  "in_region r x \<longleftrightarrow> fst r \<le> x \<and> x < snd r"

text \<open>A pixel strictly exceeds the intensity threshold.\<close>

definition bright :: "gray_image \<Rightarrow> nat \<Rightarrow> nat \<Rightarrow> bool" where
  "bright g r c \<longleftrightarrow> intensity_threshold < unat (pixel g r c)"

text \<open>A bright pixel of the image at row \<open>r\<close> and a column \<open>c\<close> of the region \<open>[x0, x1)\<close>.\<close>

definition bright_in :: "gray_image \<Rightarrow> int \<Rightarrow> int \<Rightarrow> nat \<Rightarrow> nat \<Rightarrow> bool" where
  "bright_in g x0 x1 r c \<longleftrightarrow>
     r < img_height g \<and> c < img_width g \<and> x0 \<le> int c \<and> int c < x1 \<and> bright g r c"

text \<open>The invariant of the inner loop after the columns below \<open>n\<close>.\<close>

definition scan_inv :: "gray_image \<Rightarrow> nat \<Rightarrow> int \<times> int \<Rightarrow> bool" where
  "scan_inv sub n st \<longleftrightarrow>
     (snd st = - 1 \<and> fst st = int (img_height sub)
        \<and> (\<forall>c < n. \<forall>r < img_height sub. \<not> bright sub r c))
     \<or> (0 \<le> snd st \<and> snd st < int n \<and> 0 \<le> fst st \<and> fst st < int (img_height sub)
        \<and> bright sub (nat (fst st)) (nat (snd st))
        \<and> (\<forall>c < n. \<forall>r < img_height sub. bright sub r c \<longrightarrow> fst st \<le> int r)
        \<and> (\<forall>c. int c < snd st \<longrightarrow> (\<forall>r < img_height sub. bright sub r c \<longrightarrow> fst st < int r)))"

subsection \<open>A small image to evaluate the definitions on\<close>

text \<open>
  Two rows and eight columns, peaks at the columns 2 and 6: the boundaries are 0, 4 and 8.
  The pixel of value 3 is below the brightness floor of line 56, so the second region is
  dark after it.
\<close>

definition example_gray :: gray_image where
  "example_gray =
     \<lparr>img_height = 2, img_width = 8,
      pixels = [[0, 0, 0, 0, 0, 0, 0, 0], [0, 9, 0, 0, 0, 3, 0, 0]]\<rparr>"

definition example_input :: image_input where
  "example_input =
     \<lparr>base_name = ''beat'', gray_in = Some example_gray, peaks_in = [2, 6],
      y_bottom_in = 0, y_top_in = 100\<rparr>"

section \<open>Properties of the segmentation\<close>

lemma peaks_nth_mono:
  assumes "sorted_wrt (<) peaks" "i \<le> j" "j < length peaks"
  shows "peaks ! i \<le> (peaks ! j :: int)"
proof (cases "i = j")
  case True then show ?thesis by simp
next
  case False
  with assms have "i < j" by simp
  with assms have "peaks ! i < peaks ! j" by (simp add: sorted_wrt_nth_less)
  then show ?thesis by simp
qed

lemma midpoint_mono:
  assumes "sorted_wrt (<) peaks" "i \<le> j" "j + 1 < length peaks"
  shows "midpoint peaks i \<le> midpoint peaks j"
proof -
  have "peaks ! i \<le> peaks ! j" using assms by (intro peaks_nth_mono) auto
  moreover have "peaks ! (i + 1) \<le> peaks ! (j + 1)" using assms by (intro peaks_nth_mono) auto
  ultimately show ?thesis unfolding midpoint_def by (intro zdiv_mono1) auto
qed

lemma midpoint_between:
  assumes "sorted_wrt (<) peaks" "i + 1 < length peaks"
  shows "peaks ! i \<le> midpoint peaks i" "midpoint peaks i \<le> peaks ! (i + 1)"
proof -
  have "peaks ! i \<le> peaks ! (i + 1)" using assms by (intro peaks_nth_mono) auto
  then show "peaks ! i \<le> midpoint peaks i" "midpoint peaks i \<le> peaks ! (i + 1)"
    unfolding midpoint_def by linarith+
qed

lemma sorted_midpoints:
  assumes "sorted_wrt (<) peaks"
  shows "sorted (map (midpoint peaks) [0..<length peaks - 1])"
  unfolding sorted_iff_nth_mono using assms
  by (auto intro!: midpoint_mono)

lemma left_bound_le_midpoint:
  assumes "valid_peaks peaks width" "i + 1 < length peaks"
  shows "left_bound peaks \<le> midpoint peaks i"
proof -
  from assms have s: "sorted_wrt (<) peaks" and n: "2 \<le> length peaks"
    by (simp_all add: valid_peaks_def)
  have "peaks ! 0 \<in> set peaks" using n by (intro nth_mem) auto
  then have p0: "0 \<le> peaks ! 0" using assms by (simp add: valid_peaks_def)
  have lt: "peaks ! 0 < peaks ! 1" using s n by (simp add: sorted_wrt_nth_less)
  have "peaks ! 0 \<le> peaks ! i" using s assms(2) by (intro peaks_nth_mono) auto
  also have "\<dots> \<le> midpoint peaks i" using s assms(2) by (rule midpoint_between)
  finally have a: "peaks ! 0 \<le> midpoint peaks i" .
  have "(peaks ! 1 - peaks ! 0) div 2 \<ge> 0" using lt by simp
  with a p0 show ?thesis unfolding left_bound_def by linarith
qed

lemma midpoint_le_right_bound:
  assumes "valid_peaks peaks width" "i + 1 < length peaks"
  shows "midpoint peaks i \<le> right_bound peaks width"
proof -
  from assms have s: "sorted_wrt (<) peaks" and n: "2 \<le> length peaks"
    by (simp_all add: valid_peaks_def)
  let ?l = "peaks ! (length peaks - 1)"
  have "?l \<in> set peaks" using n by (intro nth_mem) simp
  then have pl: "?l < width" using assms by (simp add: valid_peaks_def)
  have lt: "peaks ! (length peaks - 2) < ?l" using s n by (simp add: sorted_wrt_nth_less)
  have "midpoint peaks i \<le> peaks ! (i + 1)" using s assms(2) by (rule midpoint_between)
  also have "\<dots> \<le> ?l" using s assms(2) by (intro peaks_nth_mono) auto
  finally have a: "midpoint peaks i \<le> ?l" .
  have "(?l - peaks ! (length peaks - 2)) div 2 \<ge> 0" using lt by simp
  with a pl show ?thesis unfolding right_bound_def by linarith
qed

lemma left_bound_le_right_bound:
  assumes "valid_peaks peaks width"
  shows "left_bound peaks \<le> right_bound peaks width"
proof -
  from assms have "0 + 1 < length peaks" by (simp add: valid_peaks_def)
  from left_bound_le_midpoint[OF assms this] midpoint_le_right_bound[OF assms this]
  show ?thesis by simp
qed

lemma sorted_region_boundaries:
  assumes "valid_peaks peaks width"
  shows "sorted (region_boundaries peaks width)"
proof -
  from assms have s: "sorted_wrt (<) peaks" by (simp add: valid_peaks_def)
  show ?thesis
    unfolding region_boundaries_def
    using sorted_midpoints[OF s] left_bound_le_right_bound[OF assms]
      left_bound_le_midpoint[OF assms] midpoint_le_right_bound[OF assms]
    by (auto simp: sorted_append)
qed

lemma length_region_boundaries:
  "length (region_boundaries peaks width) = length peaks - 1 + 2"
  by (simp add: region_boundaries_def)

lemma length_regions: "length (regions bs) = length bs - 1"
  by (simp add: regions_def)

text \<open>
  Claim C6. For a strictly increasing peak sequence of length \<open>n \<ge> 2\<close> with all peaks in
  \<open>[0, W)\<close>, the segmentation returns \<open>n\<close> regions from \<open>n + 1\<close> boundaries; the boundaries
  are the clamped left bound, the midpoints of consecutive peaks and the clamped right bound,
  and they are non-decreasing.
\<close>

theorem region_boundaries_count_and_order:
  assumes "valid_peaks peaks width"
  shows "length (regions (region_boundaries peaks width)) = length peaks
       \<and> length (region_boundaries peaks width) = length peaks + 1
       \<and> region_boundaries peaks width =
           max 0 (peaks ! 0 - (peaks ! 1 - peaks ! 0) div 2)
           # map (\<lambda>i. (peaks ! i + peaks ! (i + 1)) div 2) [0..<length peaks - 1]
           @ [min width (last peaks + (last peaks - peaks ! (length peaks - 2)) div 2)]
       \<and> sorted (region_boundaries peaks width)"
proof -
  from assms have n: "2 \<le> length peaks" by (simp add: valid_peaks_def)
  then have ne: "peaks \<noteq> []" by auto
  have 1: "length (region_boundaries peaks width) = length peaks + 1"
    using n by (simp add: length_region_boundaries)
  have 2: "length (regions (region_boundaries peaks width)) = length peaks"
    using 1 by (simp add: length_regions)
  have 3: "region_boundaries peaks width =
           max 0 (peaks ! 0 - (peaks ! 1 - peaks ! 0) div 2)
           # map (\<lambda>i. (peaks ! i + peaks ! (i + 1)) div 2) [0..<length peaks - 1]
           @ [min width (last peaks + (last peaks - peaks ! (length peaks - 2)) div 2)]"
    using ne by (simp add: region_boundaries_def left_bound_def right_bound_def midpoint_def
        last_conv_nth cong: map_cong)
  from 1 2 3 sorted_region_boundaries[OF assms] show ?thesis by blast
qed

theorem region_boundaries_count_and_order_witness:
  "valid_peaks [100, 250, 400, 550] 1000
   \<and> region_boundaries [100, 250, 400, 550] 1000 = [25, 175, 325, 475, 625]
   \<and> sorted (region_boundaries [100, 250, 400, 550] 1000)"
  using region_boundaries_count_and_order[of "[100, 250, 400, 550]" 1000]
  by (simp add: valid_peaks_def)

lemma regions_nth:
  "i < length bs - 1 \<Longrightarrow> regions bs ! i = (bs ! i, bs ! (i + 1))"
  by (simp add: regions_def)

lemma boundary_cover_ex:
  fixes bs :: "int list"
  assumes "bs \<noteq> []" "hd bs \<le> x" "x < last bs"
  shows "\<exists>i. i + 1 < length bs \<and> bs ! i \<le> x \<and> x < bs ! (i + 1)"
  using assms
proof (induction bs)
  case Nil
  then show ?case by simp
next
  case (Cons a bs)
  show ?case
  proof (cases "bs = []")
    case True
    with Cons.prems show ?thesis by simp
  next
    case False
    show ?thesis
    proof (cases "x < hd bs")
      case True
      with Cons.prems False have "0 + 1 < length (a # bs) \<and> (a # bs) ! 0 \<le> x \<and> x < (a # bs) ! (0 + 1)"
        by (simp add: hd_conv_nth)
      then show ?thesis by blast
    next
      case False
      with \<open>bs \<noteq> []\<close> Cons.prems have "hd bs \<le> x" "x < last bs" by simp_all
      from Cons.IH[OF \<open>bs \<noteq> []\<close> this]
      obtain i where "i + 1 < length bs" "bs ! i \<le> x" "x < bs ! (i + 1)" by blast
      then have "Suc i + 1 < length (a # bs) \<and> (a # bs) ! Suc i \<le> x \<and> x < (a # bs) ! (Suc i + 1)"
        by simp
      then show ?thesis by blast
    qed
  qed
qed

lemma boundary_cover_unique:
  fixes bs :: "int list"
  assumes "sorted bs"
    and "i + 1 < length bs" "bs ! i \<le> x" "x < bs ! (i + 1)"
    and "j + 1 < length bs" "bs ! j \<le> x" "x < bs ! (j + 1)"
  shows "i = j"
proof (rule ccontr)
  assume "i \<noteq> j"
  then consider "i + 1 \<le> j" | "j + 1 \<le> i" by linarith
  then show False
  proof cases
    case 1
    with assms have "bs ! (i + 1) \<le> bs ! j" by (intro sorted_nth_mono) auto
    with assms show False by linarith
  next
    case 2
    with assms have "bs ! (j + 1) \<le> bs ! i" by (intro sorted_nth_mono) auto
    with assms show False by linarith
  qed
qed

lemma boundary_within:
  fixes bs :: "int list"
  assumes "sorted bs" "i + 1 < length bs" "bs ! i \<le> x" "x < bs ! (i + 1)"
  shows "hd bs \<le> x \<and> x < last bs"
proof -
  from assms have ne: "bs \<noteq> []" by auto
  have "bs ! 0 \<le> bs ! i" using assms by (intro sorted_nth_mono) auto
  moreover have "bs ! (i + 1) \<le> bs ! (length bs - 1)" using assms by (intro sorted_nth_mono) auto
  ultimately show ?thesis using assms ne by (simp add: hd_conv_nth last_conv_nth)
qed

text \<open>
  Claim C1, as stated, asks that the first region starts at column 0 and the last one ends
  at column \<open>W\<close>. For the peaks 100 and 250 in an image 1000 columns wide the boundaries are
  25, 175 and 325: the regions start at 25 and end at 325.
\<close>

theorem first_region_start_counterexample:
  "valid_peaks [100, 250] 1000
   \<and> region_boundaries [100, 250] 1000 = [25, 175, 325]
   \<and> regions (region_boundaries [100, 250] 1000) = [(25, 175), (175, 325)]
   \<and> fst (hd (regions (region_boundaries [100, 250] 1000))) \<noteq> 0
   \<and> snd (last (regions (region_boundaries [100, 250] 1000))) \<noteq> 1000"
  by (simp add: valid_peaks_def region_boundaries_def left_bound_def right_bound_def
      midpoint_def regions_def)

text \<open>
  Claim C1, amended. For a strictly increasing peak sequence of length \<open>n \<ge> 2\<close> with all
  peaks in \<open>[0, W)\<close>, the regions cover exactly \<open>[L, R)\<close>, where \<open>L\<close> is the clamped left
  bound and \<open>R\<close> the clamped right bound, \<open>0 \<le> L\<close> and \<open>R \<le> W\<close>: the first region starts at
  \<open>L\<close>, the last one ends at \<open>R\<close>, consecutive regions share a boundary, a column lies in
  some region exactly when it lies in \<open>[L, R)\<close>, and no column lies in two regions.
\<close>

theorem regions_partition:
  assumes "valid_peaks peaks width"
  defines "rs \<equiv> regions (region_boundaries peaks width)"
  shows "rs \<noteq> []
       \<and> fst (hd rs) = left_bound peaks \<and> 0 \<le> left_bound peaks
       \<and> snd (last rs) = right_bound peaks width \<and> right_bound peaks width \<le> width
       \<and> (\<forall>i. i + 1 < length rs \<longrightarrow> snd (rs ! i) = fst (rs ! (i + 1)))
       \<and> (\<forall>x. left_bound peaks \<le> x \<and> x < right_bound peaks width
              \<longleftrightarrow> (\<exists>i < length rs. in_region (rs ! i) x))
       \<and> (\<forall>i < length rs. \<forall>j < length rs. \<forall>x.
              in_region (rs ! i) x \<and> in_region (rs ! j) x \<longrightarrow> i = j)"
proof -
  let ?bs = "region_boundaries peaks width"
  from assms have n: "2 \<le> length peaks" by (simp add: valid_peaks_def)
  have len: "length ?bs = length peaks + 1" using n by (simp add: length_region_boundaries)
  have lrs: "length rs = length peaks" using len by (simp add: rs_def length_regions)
  have srt: "sorted ?bs" using assms(1) by (rule sorted_region_boundaries)
  have ne: "?bs \<noteq> []" by (simp add: region_boundaries_def)
  have hd_bs: "hd ?bs = left_bound peaks" by (simp add: region_boundaries_def)
  have last_bs: "last ?bs = right_bound peaks width" by (simp add: region_boundaries_def)
  have nth: "rs ! i = (?bs ! i, ?bs ! (i + 1))" if "i < length rs" for i
    using that lrs len by (simp add: rs_def regions_nth)
  have 1: "rs \<noteq> []" using lrs n by auto
  have 2: "fst (hd rs) = left_bound peaks"
    using 1 nth[of 0] hd_bs ne by (simp add: hd_conv_nth)
  have 3: "0 \<le> left_bound peaks" by (simp add: left_bound_def)
  have 4: "snd (last rs) = right_bound peaks width"
  proof -
    have "length rs - 1 < length rs" using 1 by simp
    then have "snd (rs ! (length rs - 1)) = ?bs ! (length rs - 1 + 1)" by (simp add: nth)
    also have "length rs - 1 + 1 = length ?bs - 1" using n lrs len by simp
    finally show ?thesis using 1 ne last_bs by (simp add: last_conv_nth)
  qed
  have 5: "right_bound peaks width \<le> width" by (simp add: right_bound_def)
  have 6: "\<forall>i. i + 1 < length rs \<longrightarrow> snd (rs ! i) = fst (rs ! (i + 1))"
    by (simp add: nth)
  have 7: "left_bound peaks \<le> x \<and> x < right_bound peaks width
              \<longleftrightarrow> (\<exists>i < length rs. in_region (rs ! i) x)" for x
  proof
    assume "left_bound peaks \<le> x \<and> x < right_bound peaks width"
    then have "hd ?bs \<le> x" "x < last ?bs" by (simp_all add: hd_bs last_bs)
    from boundary_cover_ex[OF ne this]
    obtain i where "i + 1 < length ?bs" "?bs ! i \<le> x" "x < ?bs ! (i + 1)" by blast
    then have "i < length rs \<and> in_region (rs ! i) x"
      using lrs len by (simp add: nth in_region_def)
    then show "\<exists>i < length rs. in_region (rs ! i) x" by blast
  next
    assume "\<exists>i < length rs. in_region (rs ! i) x"
    then obtain i where i: "i < length rs" "in_region (rs ! i) x" by blast
    then have "i + 1 < length ?bs" "?bs ! i \<le> x" "x < ?bs ! (i + 1)"
      using lrs len by (simp_all add: nth in_region_def)
    from boundary_within[OF srt this]
    show "left_bound peaks \<le> x \<and> x < right_bound peaks width"
      by (simp add: hd_bs last_bs)
  qed
  have 8: "i = j" if "i < length rs" "j < length rs" "in_region (rs ! i) x" "in_region (rs ! j) x"
    for i j x
  proof -
    from that have "i + 1 < length ?bs" "?bs ! i \<le> x" "x < ?bs ! (i + 1)"
      "j + 1 < length ?bs" "?bs ! j \<le> x" "x < ?bs ! (j + 1)"
      using lrs len by (simp_all add: nth in_region_def)
    with srt show ?thesis by (rule boundary_cover_unique)
  qed
  from 1 2 3 4 5 6 7 8 show ?thesis by blast
qed

theorem regions_partition_witness:
  "valid_peaks [100, 250] 1000
   \<and> fst (hd (regions (region_boundaries [100, 250] 1000))) = 25
   \<and> snd (last (regions (region_boundaries [100, 250] 1000))) = 325
   \<and> (\<exists>i < 2. in_region (regions (region_boundaries [100, 250] 1000) ! i) 200)"
proof -
  have v: "valid_peaks [100, 250] 1000" by (simp add: valid_peaks_def)
  have l: "left_bound [100, 250] = 25" by (simp add: left_bound_def)
  have r: "right_bound [100, 250] 1000 = 325" by (simp add: right_bound_def)
  have n: "length (regions (region_boundaries [100, 250] 1000)) = 2"
    by (simp add: regions_def region_boundaries_def)
  note t = regions_partition[OF v, unfolded l r n]
  from t have "(25 \<le> (200::int) \<and> (200::int) < 325)
      = (\<exists>i < 2. in_region (regions (region_boundaries [100, 250] 1000) ! i) 200)"
    by blast
  with t v show ?thesis by simp
qed

section \<open>Properties of the search for the top-most bright pixel\<close>

lemma np_min_le_start: "np_min y zs \<le> y"
proof (induction zs arbitrary: y)
  case Nil
  show ?case by simp
next
  case (Cons a zs)
  have "np_min (min y a) zs \<le> min y a" by (rule Cons.IH)
  then show ?case by simp
qed

lemma np_min_lower: "z \<in> set zs \<Longrightarrow> np_min y zs \<le> z"
proof (induction zs arbitrary: y)
  case Nil
  then show ?case by simp
next
  case (Cons a zs)
  show ?case
  proof (cases "z = a")
    case True
    have "np_min (min y a) zs \<le> min y a" by (rule np_min_le_start)
    with True show ?thesis by simp
  next
    case False
    with Cons show ?thesis by simp
  qed
qed

lemma np_min_mem: "np_min y zs \<in> set (y # zs)"
proof (induction zs arbitrary: y)
  case Nil
  then show ?case by simp
next
  case (Cons a zs)
  have "np_min (min y a) zs \<in> set (min y a # zs)" by (rule Cons.IH)
  then show ?case by (auto simp: min_def split: if_splits)
qed

lemma set_valid_y:
  "set (valid_y col) = {r. r < length col \<and> intensity_threshold < unat (col ! r)}"
  by (auto simp: valid_y_def)

lemma column_nth:
  "r < length (pixels g) \<Longrightarrow> column g c ! r = pixel g r c"
  by (simp add: column_def pixel_def)

lemma set_valid_y_column:
  assumes "length (pixels g) = img_height g"
  shows "set (valid_y (column g c)) = {r. r < img_height g \<and> bright g r c}"
proof -
  have "length (column g c) = img_height g" using assms by (simp add: column_def)
  then show ?thesis using assms by (auto simp: set_valid_y bright_def column_nth)
qed

lemma column_step_empty:
  assumes "length (pixels sub) = img_height sub" "valid_y (column sub n) = []"
  shows "column_step sub st n = st" "\<forall>r < img_height sub. \<not> bright sub r n"
proof -
  show "column_step sub st n = st" using assms by (simp add: column_step_def)
  have "set (valid_y (column sub n)) = {}" using assms by simp
  then show "\<forall>r < img_height sub. \<not> bright sub r n"
    unfolding set_valid_y_column[OF assms(1)] by blast
qed

lemma column_top:
  assumes "length (pixels sub) = img_height sub" "valid_y (column sub n) = y # ys"
  shows "np_min y ys < img_height sub" "bright sub (np_min y ys) n"
    "\<forall>r < img_height sub. bright sub r n \<longrightarrow> np_min y ys \<le> r"
proof -
  have "np_min y ys \<in> set (valid_y (column sub n))" using assms(2) np_min_mem[of y ys] by simp
  then show "np_min y ys < img_height sub" "bright sub (np_min y ys) n"
    unfolding set_valid_y_column[OF assms(1)] by simp_all
  show "\<forall>r < img_height sub. bright sub r n \<longrightarrow> np_min y ys \<le> r"
  proof (intro allI impI)
    fix r assume "r < img_height sub" "bright sub r n"
    then have "r \<in> set (valid_y (column sub n))"
      unfolding set_valid_y_column[OF assms(1)] by simp
    then have "r = y \<or> r \<in> set ys" using assms(2) by simp
    then show "np_min y ys \<le> r" using np_min_le_start[of y ys] np_min_lower[of r ys y] by auto
  qed
qed

lemma scan_inv_step:
  assumes len: "length (pixels sub) = img_height sub" and inv: "scan_inv sub n st"
  shows "scan_inv sub (Suc n) (column_step sub st n)"
proof (cases "valid_y (column sub n)")
  case Nil
  note e = column_step_empty[OF len Nil]
  from inv show ?thesis
    unfolding scan_inv_def e(1)[of st] using e(2)
    by (auto simp: less_Suc_eq)
next
  case (Cons y ys)
  note t = column_top[OF len Cons]
  let ?m = "np_min y ys"
  show ?thesis
  proof (cases "int ?m < fst st")
    case True
    then have step: "column_step sub st n = (int ?m, int n)"
      by (simp add: column_step_def Cons)
    have below: "\<forall>c < n. \<forall>r < img_height sub. bright sub r c \<longrightarrow> int ?m < int r"
      using inv True unfolding scan_inv_def by force
    then have below': "\<forall>c < n. \<forall>r < img_height sub. bright sub r c \<longrightarrow> ?m \<le> r"
      by force
    show ?thesis
      unfolding scan_inv_def step using t below below'
      by (auto simp: less_Suc_eq)
  next
    case False
    then have step: "column_step sub st n = st"
      by (simp add: column_step_def Cons)
    from False t(1) have "fst st \<noteq> int (img_height sub)" by linarith
    with inv have old: "0 \<le> snd st \<and> snd st < int n \<and> 0 \<le> fst st \<and> fst st < int (img_height sub)
        \<and> bright sub (nat (fst st)) (nat (snd st))
        \<and> (\<forall>c < n. \<forall>r < img_height sub. bright sub r c \<longrightarrow> fst st \<le> int r)
        \<and> (\<forall>c. int c < snd st \<longrightarrow> (\<forall>r < img_height sub. bright sub r c \<longrightarrow> fst st < int r))"
      unfolding scan_inv_def by blast
    have new: "\<forall>r < img_height sub. bright sub r n \<longrightarrow> fst st \<le> int r"
      using t(3) False by force
    show ?thesis
      unfolding scan_inv_def step using old new
      by (auto simp: less_Suc_eq)
  qed
qed

lemma column_scan_append:
  "column_scan sub (xs @ ys) st = column_scan sub ys (column_scan sub xs st)"
  by (induction xs arbitrary: st) simp_all

lemma scan_inv_scan:
  assumes "length (pixels sub) = img_height sub"
  shows "scan_inv sub n (column_scan sub [0..<n] (int (img_height sub), - 1))"
proof (induction n)
  case 0
  show ?case by (simp add: scan_inv_def)
next
  case (Suc n)
  from scan_inv_step[OF assms Suc] show ?case by (simp add: column_scan_append)
qed


lemma slice_bound_le: "slice_bound i n \<le> n"
proof (cases "i < 0")
  case True
  then have "slice_bound i n = nat (max (i + int n) 0)" by (simp add: slice_bound_def)
  with True show ?thesis by linarith
next
  case False
  then have "slice_bound i n = nat (min i (int n))" by (simp add: slice_bound_def)
  then show ?thesis by linarith
qed

lemma slice_bound_nonneg: "0 \<le> i \<Longrightarrow> slice_bound i n = nat (min i (int n))"
  by (simp add: slice_bound_def)

lemma subregion_shape:
  "img_height (subregion g x0 x1) = img_height g"
  "img_width (subregion g x0 x1) = slice_bound x1 (img_width g) - slice_bound x0 (img_width g)"
  "length (pixels (subregion g x0 x1)) = length (pixels g)"
  by (simp_all add: subregion_def Let_def)

lemma subregion_pixel:
  assumes "rectangular g" "r < img_height g"
    and "c < slice_bound x1 (img_width g) - slice_bound x0 (img_width g)"
  shows "pixel (subregion g x0 x1) r c = pixel g r (slice_bound x0 (img_width g) + c)"
proof -
  from assms have r: "r < length (pixels g)" by (simp add: rectangular_def)
  then have "pixels g ! r \<in> set (pixels g)" by simp
  with assms have "length (pixels g ! r) = img_width g" by (simp add: rectangular_def)
  then have "slice_bound x0 (img_width g) \<le> length (pixels g ! r)"
    by (simp add: slice_bound_le)
  with r assms(3) show ?thesis
    by (simp add: pixel_def subregion_def Let_def)
qed

lemma subregion_bright:
  assumes "rectangular g" "r < img_height g"
    and "c < slice_bound x1 (img_width g) - slice_bound x0 (img_width g)"
  shows "bright (subregion g x0 x1) r c = bright g r (slice_bound x0 (img_width g) + c)"
  using subregion_pixel[OF assms] by (simp add: bright_def)

lemma bright_in_local:
  assumes "0 \<le> x0" "0 \<le> x1" "bright_in g x0 x1 r c"
  shows "slice_bound x0 (img_width g) = nat x0"
    and "nat x0 \<le> c"
    and "c - nat x0 < slice_bound x1 (img_width g) - slice_bound x0 (img_width g)"
proof -
  from assms(3) have c: "c < img_width g" "x0 \<le> int c" "int c < x1"
    by (simp_all add: bright_in_def)
  show a: "slice_bound x0 (img_width g) = nat x0"
    using assms(1) c by (simp add: slice_bound_nonneg min_def)
  show "nat x0 \<le> c" using c by simp
  have "c < slice_bound x1 (img_width g)"
    unfolding slice_bound_nonneg[OF assms(2)] using c by linarith
  then show "c - nat x0 < slice_bound x1 (img_width g) - slice_bound x0 (img_width g)"
    unfolding a using c assms(1) by linarith
qed

lemma local_in_region:
  assumes "0 \<le> x0" "0 \<le> x1"
    and "c < slice_bound x1 (img_width g) - slice_bound x0 (img_width g)"
  shows "slice_bound x0 (img_width g) = nat x0"
    and "nat x0 + c < img_width g" and "x0 \<le> int (nat x0 + c)" and "int (nat x0 + c) < x1"
proof -
  have b: "slice_bound x1 (img_width g) \<le> img_width g" by (rule slice_bound_le)
  from assms(3) b have lt: "slice_bound x0 (img_width g) < img_width g" by linarith
  then show a: "slice_bound x0 (img_width g) = nat x0"
    using assms(1) by (simp add: slice_bound_nonneg min_def split: if_splits)
  from assms(3) b show "nat x0 + c < img_width g" unfolding a by linarith
  show "x0 \<le> int (nat x0 + c)" using assms(1) by simp
  have "int (slice_bound x1 (img_width g)) \<le> x1"
    using assms(2) by (simp add: slice_bound_nonneg)
  with assms(3) show "int (nat x0 + c) < x1" unfolding a by linarith
qed

lemma segment_peak_cases:
  assumes rect: "rectangular g" and x0: "0 \<le> x0" and x1: "0 \<le> x1"
  shows "(segment_peak g x0 x1 = None \<and> (\<forall>r c. \<not> bright_in g x0 x1 r c))
       \<or> (\<exists>c r. segment_peak g x0 x1 = Some (int c, int r) \<and> bright_in g x0 x1 r c
             \<and> (\<forall>r' c'. bright_in g x0 x1 r' c' \<longrightarrow> r \<le> r')
             \<and> (\<forall>c'. bright_in g x0 x1 r c' \<longrightarrow> c \<le> c'))"
proof -
  define sub where "sub = subregion g x0 x1"
  define n where "n = slice_bound x1 (img_width g) - slice_bound x0 (img_width g)"
  define st where "st = column_scan sub [0..<n] (int (img_height g), - 1)"
  have h: "img_height sub = img_height g" and w: "img_width sub = n"
    by (simp_all add: sub_def n_def subregion_shape)
  have len: "length (pixels sub) = img_height sub"
    using rect by (simp add: sub_def subregion_shape rectangular_def)
  have inv: "scan_inv sub n st"
    using scan_inv_scan[OF len, of n] by (simp add: st_def h)
  have sp: "segment_peak g x0 x1 =
      (if snd st \<ge> 0 \<and> fst st < int (img_height g) then Some (x0 + snd st, fst st) else None)"
    by (simp add: segment_peak_def Let_def sub_def[symmetric] w st_def[symmetric]
        case_prod_beta)
  have to_local: "c - nat x0 < n \<and> bright sub r (c - nat x0)"
    if "bright_in g x0 x1 r c" for r c
  proof -
    note l = bright_in_local[OF x0 x1 that]
    from that have r: "r < img_height g" and b: "bright g r c" by (simp_all add: bright_in_def)
    have "bright sub r (c - nat x0) = bright g r (slice_bound x0 (img_width g) + (c - nat x0))"
      unfolding sub_def using rect r l(3) by (rule subregion_bright)
    with l b show ?thesis by (simp add: n_def)
  qed
  have to_global: "bright_in g x0 x1 r (nat x0 + c)" if "c < n" "r < img_height g" "bright sub r c"
    for r c
  proof -
    from that(1) have c: "c < slice_bound x1 (img_width g) - slice_bound x0 (img_width g)"
      by (simp add: n_def)
    note l = local_in_region[OF x0 x1 c]
    have "bright sub r c = bright g r (slice_bound x0 (img_width g) + c)"
      unfolding sub_def using rect that(2) c by (rule subregion_bright)
    with that l show ?thesis by (simp add: bright_in_def)
  qed
  from inv consider
    (none) "snd st = - 1" "\<forall>c < n. \<forall>r < img_height sub. \<not> bright sub r c"
  | (some) "0 \<le> snd st" "snd st < int n" "0 \<le> fst st" "fst st < int (img_height sub)"
      "bright sub (nat (fst st)) (nat (snd st))"
      "\<forall>c < n. \<forall>r < img_height sub. bright sub r c \<longrightarrow> fst st \<le> int r"
      "\<forall>c. int c < snd st \<longrightarrow> (\<forall>r < img_height sub. bright sub r c \<longrightarrow> fst st < int r)"
    unfolding scan_inv_def by blast
  then show ?thesis
  proof cases
    case none
    have "segment_peak g x0 x1 = None" using none(1) by (simp add: sp)
    moreover have "\<not> bright_in g x0 x1 r c" for r c
    proof
      assume b: "bright_in g x0 x1 r c"
      then have "r < img_height sub" by (simp add: bright_in_def h)
      with to_local[OF b] none(2) show False by blast
    qed
    ultimately show ?thesis by blast
  next
    case some
    let ?c = "nat x0 + nat (snd st)" and ?r = "nat (fst st)"
    have 1: "segment_peak g x0 x1 = Some (int ?c, int ?r)"
      using some x0 by (simp add: sp h)
    have 2: "bright_in g x0 x1 ?r ?c"
      using some by (intro to_global) (simp_all add: h)
    have 3: "?r \<le> r'" if "bright_in g x0 x1 r' c'" for r' c'
    proof -
      from that have "r' < img_height sub" by (simp add: bright_in_def h)
      with to_local[OF that] some(6) have "fst st \<le> int r'" by blast
      then show ?thesis by simp
    qed
    have 4: "?c \<le> c'" if "bright_in g x0 x1 ?r c'" for c'
    proof (rule ccontr)
      assume "\<not> ?c \<le> c'"
      moreover have "nat x0 \<le> c'" using bright_in_local(2)[OF x0 x1 that] .
      ultimately have "int (c' - nat x0) < snd st" by linarith
      moreover have "?r < img_height sub" using some by simp
      moreover have "bright sub ?r (c' - nat x0)" using to_local[OF that] by simp
      ultimately have "fst st < int ?r" using some(7) by blast
      with some(3) show False by simp
    qed
    from 1 2 3 4 show ?thesis by blast
  qed
qed

text \<open>
  Claim C2. For a region \<open>[x0, x1)\<close> of a rectangular image that holds a pixel strictly
  above the intensity threshold, the search returns a bright pixel of the region whose row
  is the smallest row of any bright pixel of the region, and among the columns that have a
  bright pixel in that row it returns the leftmost one.
\<close>

theorem segment_peak_topmost_leftmost:
  assumes "rectangular g" "0 \<le> x0" "0 \<le> x1" "bright_in g x0 x1 r0 c0"
  shows "\<exists>c r. segment_peak g x0 x1 = Some (int c, int r)
           \<and> bright_in g x0 x1 r c
           \<and> (\<forall>r' c'. bright_in g x0 x1 r' c' \<longrightarrow> r \<le> r')
           \<and> (\<forall>c'. bright_in g x0 x1 r c' \<longrightarrow> c \<le> c')"
  using segment_peak_cases[OF assms(1-3)] assms(4) by blast

theorem segment_peak_topmost_leftmost_witness:
  "rectangular \<lparr>img_height = 3, img_width = 4, pixels = [[0,0,0,0],[0,7,0,9],[5,0,0,8]]\<rparr>
   \<and> bright_in \<lparr>img_height = 3, img_width = 4, pixels = [[0,0,0,0],[0,7,0,9],[5,0,0,8]]\<rparr> 1 4 1 3
   \<and> segment_peak \<lparr>img_height = 3, img_width = 4, pixels = [[0,0,0,0],[0,7,0,9],[5,0,0,8]]\<rparr> 1 4
       = Some (1, 1)
   \<and> (\<exists>c r. segment_peak \<lparr>img_height = 3, img_width = 4,
                 pixels = [[0,0,0,0],[0,7,0,9],[5,0,0,8]]\<rparr> 1 4 = Some (int c, int r)
          \<and> (\<forall>c'. bright_in \<lparr>img_height = 3, img_width = 4,
                 pixels = [[0,0,0,0],[0,7,0,9],[5,0,0,8]]\<rparr> 1 4 r c' \<longrightarrow> c \<le> c'))"
proof -
  let ?g = "\<lparr>img_height = 3, img_width = 4, pixels = [[0,0,0,0],[0,7,0,9],[5,0,0,8]]\<rparr>"
  have r: "rectangular ?g" by (simp add: rectangular_def)
  have b: "bright_in ?g 1 4 1 3"
    by (simp add: bright_in_def bright_def pixel_def intensity_threshold_def)
  have s: "segment_peak ?g 1 4 = Some (1, 1)" by code_simp
  from segment_peak_topmost_leftmost[OF r _ _ b]
  have "\<exists>c r. segment_peak ?g 1 4 = Some (int c, int r)
          \<and> (\<forall>c'. bright_in ?g 1 4 r c' \<longrightarrow> c \<le> c')"
    by simp blast
  with r b s show ?thesis by blast
qed

text \<open>
  Claim C10. Every pair \<open>(column, row)\<close> the search appends for a region \<open>[x0, x1)\<close> has
  \<open>x0 \<le> column < x1\<close>, the column inside the image, \<open>0 \<le> row < H\<close>, and the pixel at that
  row and column strictly exceeds the intensity threshold.
\<close>

theorem segment_peak_inside_and_bright:
  assumes "rectangular g" "0 \<le> x0" "0 \<le> x1" "segment_peak g x0 x1 = Some (c, r)"
  shows "x0 \<le> c \<and> c < x1 \<and> c < int (img_width g) \<and> 0 \<le> r \<and> r < int (img_height g)
       \<and> intensity_threshold < unat (pixel g (nat r) (nat c))"
proof -
  from segment_peak_cases[OF assms(1-3)] assms(4)
  obtain c' r' where "c = int c'" "r = int r'" "bright_in g x0 x1 r' c'" by auto
  then show ?thesis by (simp add: bright_in_def bright_def)
qed

theorem segment_peak_inside_and_bright_witness:
  "rectangular \<lparr>img_height = 3, img_width = 4, pixels = [[0,0,0,0],[0,7,0,9],[5,0,0,8]]\<rparr>
   \<and> segment_peak \<lparr>img_height = 3, img_width = 4, pixels = [[0,0,0,0],[0,7,0,9],[5,0,0,8]]\<rparr> 2 4
       = Some (3, 1)
   \<and> intensity_threshold
       < unat (pixel \<lparr>img_height = 3, img_width = 4, pixels = [[0,0,0,0],[0,7,0,9],[5,0,0,8]]\<rparr>
                (nat 1) (nat 3))"
proof -
  let ?g = "\<lparr>img_height = 3, img_width = 4, pixels = [[0,0,0,0],[0,7,0,9],[5,0,0,8]]\<rparr>"
  have r: "rectangular ?g" by (simp add: rectangular_def)
  have s: "segment_peak ?g 2 4 = Some (3, 1)" by code_simp
  from segment_peak_inside_and_bright[OF r _ _ s] r s show ?thesis by simp
qed

section \<open>Properties of the loop over the regions and of the main loop\<close>

lemma collect_peaks_append:
  "collect_peaks g (rs @ rs') = collect_peaks g rs @ collect_peaks g rs'"
  by (induction g rs rule: collect_peaks.induct) (simp_all split: option.splits)

lemma collect_peaks_drop_empty:
  assumes "i < length rs" "segment_peak g (fst (rs ! i)) (snd (rs ! i)) = None"
  shows "collect_peaks g rs = collect_peaks g (take i rs) @ collect_peaks g (drop (Suc i) rs)"
proof -
  have "rs = take i rs @ rs ! i # drop (Suc i) rs" using assms(1) by (rule id_take_nth_drop)
  then have "collect_peaks g rs
      = collect_peaks g (take i rs) @ collect_peaks g (rs ! i # drop (Suc i) rs)"
    using collect_peaks_append[of g "take i rs" "rs ! i # drop (Suc i) rs"] by simp
  moreover have "collect_peaks g (rs ! i # drop (Suc i) rs) = collect_peaks g (drop (Suc i) rs)"
    using assms(2) by (cases "rs ! i") simp
  ultimately show ?thesis by simp
qed

lemma rectangular_brightness_floor:
  "rectangular g \<Longrightarrow> rectangular (brightness_floor g)"
  by (auto simp: rectangular_def brightness_floor_def)

lemma brightness_floor_shape:
  "img_width (brightness_floor g) = img_width g" "img_height (brightness_floor g) = img_height g"
  by (simp_all add: brightness_floor_def)

lemma region_boundaries_nonneg:
  assumes "valid_peaks peaks width" "b \<in> set (region_boundaries peaks width)"
  shows "0 \<le> b"
proof -
  have s: "sorted (region_boundaries peaks width)" using assms(1) by (rule sorted_region_boundaries)
  have "region_boundaries peaks width = left_bound peaks # tl (region_boundaries peaks width)"
    by (simp add: region_boundaries_def)
  with s assms(2) have "left_bound peaks \<le> b"
    by (metis order_refl set_ConsD sorted_simps(2))
  moreover have "0 \<le> left_bound peaks" by (simp add: left_bound_def)
  ultimately show ?thesis by simp
qed

lemma regions_nth_mem:
  assumes "i < length (regions bs)"
  shows "fst (regions bs ! i) \<in> set bs" "snd (regions bs ! i) \<in> set bs"
  using assms by (simp_all add: length_regions regions_nth)

lemma process_image_done:
  assumes "gray_in inp = Some g0" "2 \<le> length (peaks_in inp)"
  shows "process_image inp =
     Inr \<lparr>out_boundaries = region_boundaries (peaks_in inp) (int (img_width g0)),
          out_peaks = highest_peaks (brightness_floor g0)
                        (region_boundaries (peaks_in inp) (int (img_width g0))),
          out_raw_y = raw_y_coords (highest_peaks (brightness_floor g0)
                        (region_boundaries (peaks_in inp) (int (img_width g0)))),
          out_converted_y = converted_y
             (raw_y_coords (highest_peaks (brightness_floor g0)
                        (region_boundaries (peaks_in inp) (int (img_width g0)))))
             (img_height g0) (y_bottom_in inp) (y_top_in inp)\<rparr>"
  using assms by (simp add: process_image_def Let_def brightness_floor_shape)

text \<open>
  Claim C5. When no pixel of a region strictly exceeds the intensity threshold, the search
  appends nothing for that region; the image is still completed, and its landmark sequence
  is the landmarks of the regions before it followed by those of the regions after it, each
  with its raw row and its converted value.
\<close>

theorem dark_region_omitted:
  assumes g0: "gray_in inp = Some g0" "rectangular g0"
    and peaks: "valid_peaks (peaks_in inp) (int (img_width g0))"
    and rs: "rs = regions (region_boundaries (peaks_in inp) (int (img_width g0)))"
    and i: "i < length rs"
    and dark: "\<forall>r c. \<not> bright_in (brightness_floor g0) (fst (rs ! i)) (snd (rs ! i)) r c"
  shows "segment_peak (brightness_floor g0) (fst (rs ! i)) (snd (rs ! i)) = None
       \<and> (\<exists>out. process_image inp = Inr out
            \<and> out_peaks out = collect_peaks (brightness_floor g0) (take i rs)
                               @ collect_peaks (brightness_floor g0) (drop (Suc i) rs)
            \<and> out_raw_y out = map snd (out_peaks out)
            \<and> length (out_converted_y out) = length (out_peaks out))"
proof -
  let ?g = "brightness_floor g0"
  let ?bs = "region_boundaries (peaks_in inp) (int (img_width g0))"
  have rect: "rectangular ?g" using g0(2) by (rule rectangular_brightness_floor)
  have "fst (rs ! i) \<in> set ?bs" "snd (rs ! i) \<in> set ?bs"
    using i unfolding rs by (rule regions_nth_mem)+
  then have nn: "0 \<le> fst (rs ! i)" "0 \<le> snd (rs ! i)"
    using region_boundaries_nonneg[OF peaks] by blast+
  from segment_peak_cases[OF rect nn] dark
  have none: "segment_peak ?g (fst (rs ! i)) (snd (rs ! i)) = None" by blast
  have n: "2 \<le> length (peaks_in inp)" using peaks by (simp add: valid_peaks_def)
  note outcome = process_image_done[OF g0(1) n]
  have hp: "highest_peaks ?g ?bs
      = collect_peaks ?g (take i rs) @ collect_peaks ?g (drop (Suc i) rs)"
    unfolding highest_peaks_def rs[symmetric] using i none by (rule collect_peaks_drop_empty)
  show ?thesis
    unfolding outcome using none hp by (simp add: raw_y_coords_def converted_y_def)
qed

theorem dark_region_omitted_witness:
  "gray_in example_input = Some example_gray \<and> rectangular example_gray
   \<and> valid_peaks (peaks_in example_input) (int (img_width example_gray))
   \<and> regions (region_boundaries (peaks_in example_input) (int (img_width example_gray)))
       = [(0, 4), (4, 8)]
   \<and> (\<forall>r c. \<not> bright_in (brightness_floor example_gray) 4 8 r c)
   \<and> segment_peak (brightness_floor example_gray) 4 8 = None
   \<and> (\<exists>out. process_image example_input = Inr out \<and> out_peaks out = [(1, 1)])"
proof -
  let ?g = "brightness_floor example_gray"
  have h1: "gray_in example_input = Some example_gray" by (simp add: example_input_def)
  have h2: "rectangular example_gray" by (simp add: rectangular_def example_gray_def)
  have h3: "valid_peaks (peaks_in example_input) (int (img_width example_gray))"
    by (simp add: valid_peaks_def example_input_def example_gray_def)
  have h4: "[(0, 4), (4, 8)]
      = regions (region_boundaries (peaks_in example_input) (int (img_width example_gray)))"
    by (simp add: regions_def region_boundaries_def left_bound_def midpoint_def right_bound_def
        example_input_def example_gray_def)
  have h5: "1 < length [(0, 4), (4, 8 :: int)]" by simp
  have none: "segment_peak ?g 4 8 = None" by code_simp
  have "rectangular ?g" using h2 by (rule rectangular_brightness_floor)
  from segment_peak_cases[OF this, of 4 8] none
  have dark: "\<forall>r c. \<not> bright_in ?g 4 8 r c" by simp
  then have h6: "\<forall>r c. \<not> bright_in ?g (fst ([(0, 4), (4, 8)] ! 1)) (snd ([(0, 4), (4, 8)] ! 1)) r c"
    by simp
  have first: "collect_peaks ?g [(0, 4)] = [(1, 1)]" by code_simp
  from dark_region_omitted[OF h1 h2 h3 h4 h5 h6] first
  have "\<exists>out. process_image example_input = Inr out \<and> out_peaks out = [(1, 1)]"
    by auto
  with h1 h2 h3 h4 dark none show ?thesis by simp
qed

text \<open>
  Claim C4. An image that loaded but has fewer than two peaks is skipped with the
  too-few-peaks condition: the loop body produces no boundaries, landmarks or converted
  values for it, and the images before and after it in the run are processed as they would
  be without it.
\<close>

theorem too_few_peaks_skips_image:
  assumes "gray_in inp = Some g0" "length (peaks_in inp) < 2"
  shows "process_image inp = Inl TooFewPeaks
       \<and> process_all (before @ inp # after)
           = process_all before @ (base_name inp, Inl TooFewPeaks) # process_all after"
proof -
  have 1: "process_image inp = Inl TooFewPeaks"
    using assms by (simp add: process_image_def Let_def)
  have "process_all (xs @ ys) = process_all xs @ process_all ys" for xs ys
    by (induction xs) simp_all
  with 1 show ?thesis by simp
qed

theorem too_few_peaks_skips_image_witness:
  "gray_in (example_input\<lparr>peaks_in := [3]\<rparr>) = Some example_gray
   \<and> length (peaks_in (example_input\<lparr>peaks_in := [3]\<rparr>)) < 2
   \<and> process_image (example_input\<lparr>peaks_in := [3]\<rparr>) = Inl TooFewPeaks
   \<and> process_all [example_input\<lparr>peaks_in := [3]\<rparr>, example_input]
       = [(''beat'', Inl TooFewPeaks), (''beat'', process_image example_input)]"
proof -
  have h1: "gray_in (example_input\<lparr>peaks_in := [3]\<rparr>) = Some example_gray"
    by (simp add: example_input_def)
  have h2: "length (peaks_in (example_input\<lparr>peaks_in := [3]\<rparr>)) < 2" by simp
  from too_few_peaks_skips_image[OF h1 h2, of "[]" "[example_input]"] h1 h2 show ?thesis
    by (simp add: example_input_def)
qed

section \<open>Properties of the manual y-scale\<close>



text \<open>
  Claim C8. The y-scale reverses the order of rows: for \<open>H > 0\<close>, \<open>y_top \<ge> y_bottom\<close> and
  rows \<open>r1 < r2\<close> the value of \<open>r1\<close> is at least the value of \<open>r2\<close>.
\<close>

theorem scale_row_order_reversing:
  assumes "0 < height" "y_bottom \<le> y_top" "r1 < r2"
  shows "scale_row height y_bottom y_top r2 \<le> scale_row height y_bottom y_top r1"
proof -
  have "real_of_int r1 / real height \<le> real_of_int r2 / real height"
    using assms(1,3) by (simp add: divide_right_mono)
  then have "1 - real_of_int r2 / real height \<le> 1 - real_of_int r1 / real height" by simp
  moreover have "0 \<le> y_top - y_bottom" using assms(2) by simp
  ultimately have "(1 - real_of_int r2 / real height) * (y_top - y_bottom)
      \<le> (1 - real_of_int r1 / real height) * (y_top - y_bottom)"
    by (rule mult_right_mono)
  then show ?thesis by (simp add: scale_row_def)
qed

theorem scale_row_order_reversing_witness:
  "(0::nat) < 1000 \<and> (0::real) \<le> 100 \<and> (250::int) < 500
   \<and> scale_row 1000 0 100 500 \<le> scale_row 1000 0 100 250"
  using scale_row_order_reversing[of 1000 0 100 250 500] by simp

text \<open>
  Claim C9. With \<open>y_top = y_bottom\<close> the y-scale maps every row to \<open>y_bottom\<close>, and an
  image with at least two peaks is completed with that constant as the converted value of
  each of its landmarks.
\<close>

theorem degenerate_scale_constant:
  assumes "gray_in inp = Some g0" "0 < img_height g0" "2 \<le> length (peaks_in inp)"
    and "y_top_in inp = y_bottom_in inp"
  shows "converted_y rows (img_height g0) (y_bottom_in inp) (y_top_in inp)
           = replicate (length rows) (y_bottom_in inp)
       \<and> (\<exists>out. process_image inp = Inr out
            \<and> out_converted_y out = replicate (length (out_peaks out)) (y_bottom_in inp))"
proof -
  have c: "converted_y rows' h (y_bottom_in inp) (y_top_in inp)
      = replicate (length rows') (y_bottom_in inp)" for rows' h
    using assms(4) by (induction rows') (simp_all add: converted_y_def scale_row_def)
  show ?thesis
    unfolding process_image_done[OF assms(1,3)] using c by (simp add: raw_y_coords_def)
qed

theorem degenerate_scale_constant_witness:
  "gray_in (example_input\<lparr>y_top_in := 0\<rparr>) = Some example_gray \<and> 0 < img_height example_gray
   \<and> 2 \<le> length (peaks_in (example_input\<lparr>y_top_in := 0\<rparr>))
   \<and> y_top_in (example_input\<lparr>y_top_in := 0\<rparr>) = y_bottom_in (example_input\<lparr>y_top_in := 0\<rparr>)
   \<and> converted_y [0, 1] 2 0 0 = [0, 0]
   \<and> (\<exists>out. process_image (example_input\<lparr>y_top_in := 0\<rparr>) = Inr out
          \<and> out_converted_y out = replicate (length (out_peaks out)) 0)"
proof -
  let ?inp = "example_input\<lparr>y_top_in := 0\<rparr>"
  have h1: "gray_in ?inp = Some example_gray" by (simp add: example_input_def)
  have h2: "0 < img_height example_gray" by (simp add: example_gray_def)
  have h3: "2 \<le> length (peaks_in ?inp)" by (simp add: example_input_def)
  have h4: "y_top_in ?inp = y_bottom_in ?inp" by (simp add: example_input_def)
  have yb: "y_bottom_in ?inp = 0" by (simp add: example_input_def)
  have ht: "img_height example_gray = 2" by (simp add: example_gray_def)
  from degenerate_scale_constant[OF h1 h2 h3 h4, of "[0, 1]"] h1 h2 h3 h4 show ?thesis
    unfolding yb ht by simp
qed

end
